theory Spec2Isabelle
  imports Main
begin

section \<open>Errors\<close>

text \<open>
  The exceptions the program can raise by itself: an index outside a list
  (\<^verbatim>\<open>classes[0]\<close>, \<^verbatim>\<open>self._images[idx]\<close>, \<^verbatim>\<open>self._labels[idx]\<close>,
  \<^verbatim>\<open>self._seen[idx]\<close>) and the failed \<^verbatim>\<open>assert\<close> of the constructor.
\<close>

datatype error = IndexError | AssertionError

section \<open>The image labeler\<close>

subsection \<open>State\<close>

text \<open>
  \<^verbatim>\<open>render_img(idx)\<close> displays an input cell and an image widget. The cell is
  \<^verbatim>\<open>self._cell_factory.new(cell_callback, value=self._labels[idx])\<close>, where
  \<^verbatim>\<open>cell_callback\<close> closes over the parameter \<^verbatim>\<open>idx\<close>. A displayed cell is
  recorded by that captured index, the value handed to the factory, and the
  image data shown beside it.
\<close>

record ('img, 'l) cell =
  cell_idx :: nat
  cell_value :: "'l option"
  img_widget :: 'img

text \<open>
  The fields of \<^verbatim>\<open>ImageLabeler\<close>. A label is any value or Python's \<^verbatim>\<open>None\<close>,
  hence \<open>'l option\<close>. \<open>displayed\<close> is what the output area currently shows;
  \<open>rendered\<close> is the history of the calls of \<^verbatim>\<open>render_img\<close> that ran to
  their end, in order.
\<close>

record ('img, 'l) labeler =
  images :: "'img list"
  labels :: "'l option list"
  seen :: "bool list"
  displayed :: "('img, 'l) cell list"
  rendered :: "nat list"

text \<open>
  The local variables of \<^verbatim>\<open>_render_single\<close> that its closures share:
  \<^verbatim>\<open>n\<close>, \<^verbatim>\<open>idx\<close>, the progress bar's value, the label text
  \<^verbatim>\<open>'{} / {}'.format(idx + 1, n)\<close> (kept as the pair of numbers), and the
  auto-advance checkbox.
\<close>

record ('img, 'l) single = "('img, 'l) labeler" +
  n :: nat
  idx :: nat
  pbar_widget :: nat
  label_widget :: "nat \<times> nat"
  auto_next_box :: bool

datatype ('img, 'l) app =
  Multi "('img, 'l) labeler"
| Single "('img, 'l) single"

subsection \<open>Construction\<close>

text \<open>
  Lines 88 to 95 of \<^verbatim>\<open>__init__\<close>: the fields before anything is rendered.
\<close>

definition init ::
  "'img list \<Rightarrow> 'l option list option \<Rightarrow> error + ('img, 'l) labeler" where
  "init imgs default_labels =
     (let default_labels =
            (case default_labels of
               None \<Rightarrow> replicate (length imgs) None
             | Some ls \<Rightarrow> ls)
      in if length default_labels = length imgs
         then Inr \<lparr>images = imgs, labels = default_labels,
                   seen = replicate (length imgs) False,
                   displayed = [], rendered = []\<rparr>
         else Inl AssertionError)"

text \<open>
  \<^verbatim>\<open>_load_image\<close> reads \<^verbatim>\<open>self._images[idx]\<close>, which raises outside the list.
  The PNG encoding is the imaging library's; the model returns the image.
\<close>

definition load_image ::
  "('img, 'l, 'z) labeler_scheme \<Rightarrow> nat \<Rightarrow> error + 'img" where
  "load_image self i =
     (if i < length (images self) then Inr (images self ! i) else Inl IndexError)"

definition all_seen :: "('img, 'l, 'z) labeler_scheme \<Rightarrow> bool" where
  "all_seen self = list_all (\<lambda>b. b) (seen self)"

subsection \<open>Multi mode\<close>

definition render_img_multi ::
  "nat \<Rightarrow> ('img, 'l) labeler \<Rightarrow> error + ('img, 'l) labeler" where
  "render_img_multi i self =
     (case load_image self i of
        Inl e \<Rightarrow> Inl e
      | Inr img_data \<Rightarrow>
          if i < length (labels self) \<and> i < length (seen self)
          then Inr (self\<lparr>displayed := displayed self @
                            [\<lparr>cell_idx = i, cell_value = labels self ! i,
                              img_widget = img_data\<rparr>],
                          seen := (seen self)[i := True],
                          rendered := rendered self @ [i]\<rparr>)
          else Inl IndexError)"

fun render_each ::
  "nat list \<Rightarrow> ('img, 'l) labeler \<Rightarrow> error + ('img, 'l) labeler" where
  "render_each [] self = Inr self"
| "render_each (i # rest) self =
     (case render_img_multi i self of
        Inl e \<Rightarrow> Inl e
      | Inr self' \<Rightarrow> render_each rest self')"

definition render_multi :: "('img, 'l) labeler \<Rightarrow> error + ('img, 'l) labeler" where
  "render_multi self = render_each [0..<length (images self)] self"

definition cell_callback_multi ::
  "nat \<Rightarrow> 'l option \<Rightarrow> ('img, 'l) labeler \<Rightarrow> error + ('img, 'l) labeler" where
  "cell_callback_multi i label self =
     (if i < length (labels self)
      then Inr (self\<lparr>labels := (labels self)[i := label]\<rparr>)
      else Inl IndexError)"

subsection \<open>Single mode\<close>

definition set_progess :: "('img, 'l) single \<Rightarrow> ('img, 'l) single" where
  "set_progess s = s\<lparr>pbar_widget := idx s + 1, label_widget := (idx s + 1, n s)\<rparr>"

text \<open>
  \<^verbatim>\<open>render_img\<close> of single mode clears the image output before it displays
  the new cell, so one cell is on screen at a time.
\<close>

definition render_img ::
  "nat \<Rightarrow> ('img, 'l) single \<Rightarrow> error + ('img, 'l) single" where
  "render_img i s =
     (case load_image s i of
        Inl e \<Rightarrow> Inl e
      | Inr img_data \<Rightarrow>
          if i < length (labels s) \<and> i < length (seen s)
          then Inr (s\<lparr>displayed := [\<lparr>cell_idx = i, cell_value = labels s ! i,
                                      img_widget = img_data\<rparr>],
                       seen := (seen s)[i := True],
                       rendered := rendered s @ [i]\<rparr>)
          else Inl IndexError)"

definition next_img :: "('img, 'l) single \<Rightarrow> error + ('img, 'l) single" where
  "next_img s =
     (if int (idx s) < int (n s) - 1
      then (case render_img (idx s + 1) (s\<lparr>idx := idx s + 1\<rparr>) of
              Inl e \<Rightarrow> Inl e
            | Inr s' \<Rightarrow> Inr (set_progess s'))
      else Inr (set_progess s))"

definition prev_img :: "('img, 'l) single \<Rightarrow> error + ('img, 'l) single" where
  "prev_img s =
     (if idx s > 0
      then (case render_img (idx s - 1) (s\<lparr>idx := idx s - 1\<rparr>) of
              Inl e \<Rightarrow> Inl e
            | Inr s' \<Rightarrow> Inr (set_progess s'))
      else Inr (set_progess s))"

text \<open>
  The callback of the cell rendered for image \<open>i\<close>: \<open>i\<close> is the parameter of
  \<^verbatim>\<open>render_img\<close>, while \<^verbatim>\<open>next_img\<close> works on the shared \<^verbatim>\<open>idx\<close>.
\<close>

definition cell_callback ::
  "nat \<Rightarrow> 'l option \<Rightarrow> ('img, 'l) single \<Rightarrow> error + ('img, 'l) single" where
  "cell_callback i label s =
     (if i < length (labels s)
      then (let s' = s\<lparr>labels := (labels s)[i := label]\<rparr>
            in if int i < int (n s') - 1 \<and> auto_next_box s'
               then next_img s'
               else Inr s')
      else Inl IndexError)"

text \<open>
  \<^verbatim>\<open>_render_single\<close> ends by rendering image 0. With no images that call
  raises at \<^verbatim>\<open>self._images[0]\<close>, and the model reports the exception as the
  result of the construction; it is raised inside the output widget's
  \<^verbatim>\<open>with\<close> block, and what the widget then does with it is the toolkit's
  business.
\<close>

definition render_single :: "('img, 'l) labeler \<Rightarrow> error + ('img, 'l) single" where
  "render_single self =
     (let s = set_progess
                \<lparr>images = images self, labels = labels self, seen = seen self,
                 displayed = displayed self, rendered = rendered self,
                 n = length (images self), idx = 0, pbar_widget = 1,
                 label_widget = (0, 0), auto_next_box = True\<rparr>
      in render_img (idx s) s)"

definition ImageLabeler ::
  "'img list \<Rightarrow> 'l option list option \<Rightarrow> bool \<Rightarrow> error + ('img, 'l) app" where
  "ImageLabeler imgs default_labels multi_mode =
     (case init imgs default_labels of
        Inl e \<Rightarrow> Inl e
      | Inr self \<Rightarrow>
          if multi_mode
          then (case render_multi self of
                  Inl e \<Rightarrow> Inl e
                | Inr self' \<Rightarrow> Inr (Multi self'))
          else (case render_single self of
                  Inl e \<Rightarrow> Inl e
                | Inr s \<Rightarrow> Inr (Single s)))"

subsection \<open>User events\<close>

text \<open>
  What the user can do with the widgets on screen: click Next or Previous,
  set the auto-advance checkbox, or make the \<open>k\<close>-th displayed input cell
  deliver a label to its callback. A cell that is not on screen cannot be
  operated, so such an event changes nothing.
\<close>

datatype 'l event = Next | Previous | AutoAdvance bool | CellInput nat "'l option"

fun fire :: "'l event \<Rightarrow> ('img, 'l) single \<Rightarrow> error + ('img, 'l) single" where
  "fire Next s = next_img s"
| "fire Previous s = prev_img s"
| "fire (AutoAdvance b) s = Inr (s\<lparr>auto_next_box := b\<rparr>)"
| "fire (CellInput k v) s =
     (if k < length (displayed s)
      then cell_callback (cell_idx (displayed s ! k)) v s
      else Inr s)"

fun run :: "'l event list \<Rightarrow> ('img, 'l) single \<Rightarrow> error + ('img, 'l) single" where
  "run [] s = Inr s"
| "run (e # es) s =
     (case fire e s of Inl err \<Rightarrow> Inl err | Inr s' \<Rightarrow> run es s')"

text \<open>The states a sequence of events passes through, the first one included.\<close>

fun states :: "'l event list \<Rightarrow> ('img, 'l) single \<Rightarrow> ('img, 'l) single list" where
  "states [] s = [s]"
| "states (e # es) s =
     s # (case fire e s of Inl err \<Rightarrow> [] | Inr s' \<Rightarrow> states es s')"

text \<open>Multi mode has no buttons: only the cells' callbacks fire.\<close>

fun fire_multi ::
  "nat \<times> 'l option \<Rightarrow> ('img, 'l) labeler \<Rightarrow> error + ('img, 'l) labeler" where
  "fire_multi (k, v) self =
     (if k < length (displayed self)
      then cell_callback_multi (cell_idx (displayed self ! k)) v self
      else Inr self)"

fun run_multi ::
  "(nat \<times> 'l option) list \<Rightarrow> ('img, 'l) labeler \<Rightarrow> error + ('img, 'l) labeler" where
  "run_multi [] self = Inr self"
| "run_multi (e # es) self =
     (case fire_multi e self of Inl err \<Rightarrow> Inl err | Inr self' \<Rightarrow> run_multi es self')"

subsection \<open>Invariants of the two modes\<close>

text \<open>
  What holds of single mode after construction and after every event: the
  lists keep the length \<^verbatim>\<open>n\<close>, the index is inside them, the one cell on
  screen is wired to the current index, and the seen flags are those of the
  rendered images.
\<close>

definition single_inv :: "'img list \<Rightarrow> ('img, 'l) single \<Rightarrow> bool" where
  "single_inv imgs s \<longleftrightarrow>
     images s = imgs \<and> n s = length imgs \<and>
     length (labels s) = length imgs \<and> length (seen s) = length imgs \<and>
     idx s < length imgs \<and>
     length (displayed s) = 1 \<and> cell_idx (displayed s ! 0) = idx s \<and>
     (\<forall>i < length imgs. seen s ! i \<longleftrightarrow> i \<in> set (rendered s)) \<and>
     idx s \<in> set (rendered s)"

definition multi_inv :: "'img list \<Rightarrow> ('img, 'l) labeler \<Rightarrow> bool" where
  "multi_inv imgs m \<longleftrightarrow>
     images m = imgs \<and> length (labels m) = length imgs \<and>
     seen m = replicate (length imgs) True \<and>
     map cell_idx (displayed m) = [0..<length imgs] \<and>
     map img_widget (displayed m) = imgs \<and>
     rendered m = [0..<length imgs]"

text \<open>Moving to image \<open>k\<close>: what both buttons do when they move.\<close>

definition moved :: "nat \<Rightarrow> ('img, 'l) single \<Rightarrow> ('img, 'l) single" where
  "moved k s =
     s\<lparr>idx := k,
       displayed := [\<lparr>cell_idx = k, cell_value = labels s ! k, img_widget = images s ! k\<rparr>],
       seen := (seen s)[k := True],
       rendered := rendered s @ [k],
       pbar_widget := k + 1, label_widget := (k + 1, n s)\<rparr>"

section \<open>The input cell factories\<close>

subsection \<open>Values\<close>

text \<open>
  The class values of the selector: Python's \<^verbatim>\<open>None\<close>, integers and strings,
  with Python's truth value (\<^verbatim>\<open>None\<close>, \<^verbatim>\<open>0\<close> and \<^verbatim>\<open>''\<close> are falsy). On these
  values Python's \<^verbatim>\<open>==\<close> is equality.
\<close>

datatype pyval = PNone | PInt int | PStr string

fun truthy :: "pyval \<Rightarrow> bool" where
  "truthy PNone = False"
| "truthy (PInt i) = (i \<noteq> 0)"
| "truthy (PStr s) = (s \<noteq> [])"

subsection \<open>The class selector\<close>

record multi_class_factory =
  classes :: "pyval list"
  default_class :: pyval

text \<open>
  \<^verbatim>\<open>default if default else classes[0]\<close>: the list is only read when the
  default is falsy, and reading an empty list raises.
\<close>

definition MultiClassInputCellFactory_init ::
  "pyval list \<Rightarrow> pyval \<Rightarrow> error + multi_class_factory" where
  "MultiClassInputCellFactory_init cls dflt =
     (if truthy dflt
      then Inr \<lparr>classes = cls, default_class = dflt\<rparr>
      else (case cls of
              [] \<Rightarrow> Inl IndexError
            | c # _ \<Rightarrow> Inr \<lparr>classes = cls, default_class = c\<rparr>))"

text \<open>
  The toggle buttons as the program uses them: the options and the value it
  passes, and the handlers it registers with \<^verbatim>\<open>observe(..., names='value')\<close>.
  A handler receives the change, of which the program reads \<^verbatim>\<open>change['new']\<close>.
  A callback acts on the state \<open>'s\<close> of whoever supplied it. The toolkit's own
  checks on the selection are not part of the program and not modelled.
\<close>

record change =
  change_old :: pyval
  change_new :: pyval

record 's toggle_buttons =
  tb_options :: "pyval list"
  tb_value :: pyval
  tb_observers :: "(change \<Rightarrow> 's \<Rightarrow> 's) list"

definition on_change :: "(pyval \<Rightarrow> 's \<Rightarrow> 's) \<Rightarrow> change \<Rightarrow> 's \<Rightarrow> 's" where
  "on_change result_callback c = result_callback (change_new c)"

definition MultiClassInputCellFactory_new ::
  "multi_class_factory \<Rightarrow> (pyval \<Rightarrow> 's \<Rightarrow> 's) \<Rightarrow> pyval \<Rightarrow> 's toggle_buttons" where
  "MultiClassInputCellFactory_new self result_callback v =
     (let v = (if v = PNone \<or> v \<notin> set (classes self) then default_class self else v)
      in \<lparr>tb_options = classes self, tb_value = v,
          tb_observers = [on_change result_callback]\<rparr>)"

text \<open>
  The user picks the option \<open>v\<close>. The value trait notifies its observers when
  the value changes; picking the button that is already selected, or a value
  that is not offered, changes nothing.
\<close>

definition select :: "pyval \<Rightarrow> 's toggle_buttons \<times> 's \<Rightarrow> 's toggle_buttons \<times> 's" where
  "select v ws =
     (let w = fst ws; s = snd ws
      in if v \<in> set (tb_options w) \<and> v \<noteq> tb_value w
         then (w\<lparr>tb_value := v\<rparr>,
               fold (\<lambda>h. h \<lparr>change_old = tb_value w, change_new = v\<rparr>) (tb_observers w) s)
         else (w, s))"

subsection \<open>The validation counters\<close>

record ValResult =
  tp :: int
  fp :: int
  fn :: int

text \<open>
  The toolkit's bounded integer text box, as far as the program relies on it:
  it holds a value with a minimum and a maximum, and a value outside them is
  capped and floored whenever one is set, at construction as on entry.
\<close>

record bounded_int_text =
  bit_value :: int
  bit_min :: int
  bit_max :: int

definition validate_value :: "bounded_int_text \<Rightarrow> int \<Rightarrow> int" where
  "validate_value w v =
     (if bit_max w < v \<or> bit_min w > v then min (max v (bit_min w)) (bit_max w) else v)"

definition set_value :: "int \<Rightarrow> bounded_int_text \<Rightarrow> bounded_int_text" where
  "set_value v w = w\<lparr>bit_value := validate_value w v\<rparr>"

definition BoundedIntText :: "int \<Rightarrow> int \<Rightarrow> int \<Rightarrow> bounded_int_text" where
  "BoundedIntText v lo hi = set_value v \<lparr>bit_value = 0, bit_min = lo, bit_max = hi\<rparr>"

text \<open>
  The box \<^verbatim>\<open>new\<close> returns: the three counters and the Submit button with its
  click handlers. \<^verbatim>\<open>on_submit\<close> closes over the three widgets and reads their
  values when it runs, so a handler takes the widgets as they are at the click.
\<close>

type_synonym counters = "bounded_int_text \<times> bounded_int_text \<times> bounded_int_text"

record 's hbox =
  tp_widget :: bounded_int_text
  fp_widget :: bounded_int_text
  fn_widget :: bounded_int_text
  submit_btn :: "(counters \<Rightarrow> 's \<Rightarrow> 's) list"

definition on_submit :: "(ValResult \<Rightarrow> 's \<Rightarrow> 's) \<Rightarrow> counters \<Rightarrow> 's \<Rightarrow> 's" where
  "on_submit result_callback ws =
     (case ws of (tpw, fpw, fnw) \<Rightarrow>
        result_callback \<lparr>tp = bit_value tpw, fp = bit_value fpw, fn = bit_value fnw\<rparr>)"

definition DetectorValidationInputCellFactory_new ::
  "(ValResult \<Rightarrow> 's \<Rightarrow> 's) \<Rightarrow> ValResult option \<Rightarrow> 's hbox" where
  "DetectorValidationInputCellFactory_new result_callback v =
     (let (tp0, fp0, fn0) = (case v of None \<Rightarrow> (0, 0, 0) | Some r \<Rightarrow> (tp r, fp r, fn r))
      in \<lparr>tp_widget = BoundedIntText tp0 0 100,
          fp_widget = BoundedIntText fp0 0 100,
          fn_widget = BoundedIntText fn0 0 100,
          submit_btn = [on_submit result_callback]\<rparr>)"

text \<open>The user types a number into one of the counters, or clicks Submit.\<close>

datatype counter_event = EnterTp int | EnterFp int | EnterFn int | ClickSubmit

fun operate :: "counter_event \<Rightarrow> 's hbox \<times> 's \<Rightarrow> 's hbox \<times> 's" where
  "operate (EnterTp v) (b, s) = (b\<lparr>tp_widget := set_value v (tp_widget b)\<rparr>, s)"
| "operate (EnterFp v) (b, s) = (b\<lparr>fp_widget := set_value v (fp_widget b)\<rparr>, s)"
| "operate (EnterFn v) (b, s) = (b\<lparr>fn_widget := set_value v (fn_widget b)\<rparr>, s)"
| "operate ClickSubmit (b, s) =
     (b, fold (\<lambda>h. h (tp_widget b, fp_widget b, fn_widget b)) (submit_btn b) s)"

text \<open>A callback that records what it is called with, in order.\<close>

definition record_call :: "'a \<Rightarrow> 'a list \<Rightarrow> 'a list" where
  "record_call x log = log @ [x]"

subsection \<open>Controls in use\<close>

text \<open>
  A control some time after \<^verbatim>\<open>new\<close> returned it: the user has made the
  selections \<open>vs\<close>, or operated the counters and the button as \<open>es\<close> says.
\<close>

abbreviation selector_after ::
  "multi_class_factory \<Rightarrow> (pyval \<Rightarrow> 's \<Rightarrow> 's) \<Rightarrow> pyval \<Rightarrow> pyval list \<Rightarrow> 's
     \<Rightarrow> 's toggle_buttons \<times> 's" where
  "selector_after f cb v0 vs s0 \<equiv> fold select vs (MultiClassInputCellFactory_new f cb v0, s0)"

abbreviation counters_after ::
  "(ValResult \<Rightarrow> 's \<Rightarrow> 's) \<Rightarrow> ValResult option \<Rightarrow> counter_event list \<Rightarrow> 's
     \<Rightarrow> 's hbox \<times> 's" where
  "counters_after cb r0 es t0 \<equiv>
     fold operate es (DetectorValidationInputCellFactory_new cb r0, t0)"

text \<open>
  What holds of the counters' box throughout: the click handler is the one
  \<^verbatim>\<open>new\<close> registered, and each counter keeps its bounds 0 and 100 and a value
  between them.
\<close>

definition widget_ok :: "bounded_int_text \<Rightarrow> bool" where
  "widget_ok w \<longleftrightarrow> bit_min w = 0 \<and> bit_max w = 100 \<and> 0 \<le> bit_value w \<and> bit_value w \<le> 100"

definition box_ok :: "(ValResult \<Rightarrow> 's \<Rightarrow> 's) \<Rightarrow> 's hbox \<Rightarrow> bool" where
  "box_ok cb b \<longleftrightarrow>
     submit_btn b = [on_submit cb] \<and>
     widget_ok (tp_widget b) \<and> widget_ok (fp_widget b) \<and> widget_ok (fn_widget b)"

definition in_bounds :: "ValResult \<Rightarrow> bool" where
  "in_bounds r \<longleftrightarrow> 0 \<le> tp r \<and> tp r \<le> 100 \<and> 0 \<le> fp r \<and> fp r \<le> 100 \<and> 0 \<le> fn r \<and> fn r \<le> 100"


section \<open>Properties of the image labeler\<close>

subsection \<open>Construction\<close>

lemma init_Inr:
  assumes "init imgs dl = Inr self"
  shows "images self = imgs" and "length (labels self) = length imgs"
    and "seen self = replicate (length imgs) False"
    and "displayed self = []" and "rendered self = []"
  using assms by (auto simp: init_def Let_def split: if_splits option.splits)

lemma init_total:
  assumes "\<forall>ls. dl = Some ls \<longrightarrow> length ls = length imgs"
  shows "\<exists>self. init imgs dl = Inr self"
  using assms by (cases dl) (auto simp: init_def)

subsection \<open>Single mode\<close>

lemma render_img_Inr:
  assumes "i < length (images s)" and "length (labels s) = length (images s)"
    and "length (seen s) = length (images s)"
  shows "render_img i s =
     Inr (s\<lparr>displayed := [\<lparr>cell_idx = i, cell_value = labels s ! i,
                             img_widget = images s ! i\<rparr>],
            seen := (seen s)[i := True],
            rendered := rendered s @ [i]\<rparr>)"
  using assms by (simp add: render_img_def load_image_def)

lemma moved_inv:
  assumes "single_inv imgs s" and "k < length imgs"
  shows "single_inv imgs (moved k s)"
  using assms by (auto simp: single_inv_def moved_def nth_list_update)

lemma set_progess_inv:
  "single_inv imgs s \<Longrightarrow> single_inv imgs (set_progess s)"
  by (simp add: single_inv_def set_progess_def)

lemma next_img_eq:
  assumes "single_inv imgs s"
  shows "next_img s =
     Inr (if int (idx s) < int (n s) - 1 then moved (idx s + 1) s else set_progess s)"
  using assms
  by (auto simp: single_inv_def next_img_def render_img_Inr set_progess_def moved_def)

lemma prev_img_eq:
  assumes "single_inv imgs s"
  shows "prev_img s = Inr (if idx s > 0 then moved (idx s - 1) s else set_progess s)"
  using assms
  by (auto simp: single_inv_def prev_img_def render_img_Inr set_progess_def moved_def)

lemma labels_update_inv:
  assumes "single_inv imgs s"
  shows "single_inv imgs (s\<lparr>labels := (labels s)[i := v]\<rparr>)"
  using assms by (simp add: single_inv_def)

lemma cell_callback_eq:
  assumes "single_inv imgs s" and "i < length imgs"
  shows "cell_callback i v s =
     Inr (let s' = s\<lparr>labels := (labels s)[i := v]\<rparr>
          in if int i < int (n s) - 1 \<and> auto_next_box s
             then (if int (idx s) < int (n s) - 1 then moved (idx s + 1) s' else set_progess s')
             else s')"
  using assms next_img_eq[OF labels_update_inv[OF assms(1), of i v]]
  by (simp add: cell_callback_def Let_def single_inv_def)

lemma cell_callback_inv:
  assumes "single_inv imgs s" and "i < length imgs"
  shows "\<exists>s'. cell_callback i v s = Inr s' \<and> single_inv imgs s'"
proof -
  let ?s = "s\<lparr>labels := (labels s)[i := v]\<rparr>"
  have a: "single_inv imgs ?s" by (rule labels_update_inv[OF assms(1)])
  have b: "int (idx s) < int (n s) - 1 \<Longrightarrow> single_inv imgs (moved (idx s + 1) ?s)"
    using a by (intro moved_inv) (auto simp: single_inv_def)
  show ?thesis
    using a b set_progess_inv[OF a]
    by (simp add: cell_callback_eq[OF assms] Let_def)
qed

lemma fire_inv:
  assumes "single_inv imgs s"
  shows "\<exists>s'. fire e s = Inr s' \<and> single_inv imgs s'"
proof (cases e)
  case Next
  have "int (idx s) < int (n s) - 1 \<Longrightarrow> single_inv imgs (moved (idx s + 1) s)"
    using assms by (intro moved_inv) (auto simp: single_inv_def)
  then show ?thesis
    using Next set_progess_inv[OF assms] by (simp add: next_img_eq[OF assms])
next
  case Previous
  have "idx s > 0 \<Longrightarrow> single_inv imgs (moved (idx s - 1) s)"
    using assms by (intro moved_inv) (auto simp: single_inv_def)
  then show ?thesis
    using Previous set_progess_inv[OF assms] by (simp add: prev_img_eq[OF assms])
next
  case (AutoAdvance b)
  then show ?thesis using assms by (simp add: single_inv_def)
next
  case (CellInput k v)
  show ?thesis
  proof (cases "k < length (displayed s)")
    case True
    with assms have "k = 0" by (simp add: single_inv_def)
    with assms have "cell_idx (displayed s ! k) < length imgs" by (simp add: single_inv_def)
    from cell_callback_inv[OF assms this] show ?thesis using CellInput True by simp
  next
    case False
    then show ?thesis using CellInput assms by simp
  qed
qed

lemma run_inv:
  assumes "single_inv imgs s"
  shows "\<exists>s'. run es s = Inr s' \<and> single_inv imgs s'"
  using assms
proof (induction es arbitrary: s)
  case Nil
  then show ?case by simp
next
  case (Cons e es)
  from fire_inv[OF Cons.prems] obtain s1
    where "fire e s = Inr s1" and "single_inv imgs s1" by blast
  with Cons.IH[of s1] show ?case by simp
qed

lemma render_single_inv:
  assumes "init imgs dl = Inr self" and "render_single self = Inr s"
  shows "single_inv imgs s" and "idx s = 0" and "rendered s = [0]"
    and "seen s = (replicate (length imgs) False)[0 := True]"
    and "labels s = labels self" and "auto_next_box s"
proof -
  note i = init_Inr[OF assms(1)]
  have ne: "0 < length imgs"
  proof (rule ccontr)
    assume "\<not> 0 < length imgs"
    with assms(2) i show False
      by (simp add: render_single_def set_progess_def render_img_def load_image_def)
  qed
  with assms(2) i have s: "s = \<lparr>images = imgs, labels = labels self,
      seen = (replicate (length imgs) False)[0 := True],
      displayed = [\<lparr>cell_idx = 0, cell_value = labels self ! 0, img_widget = imgs ! 0\<rparr>],
      rendered = [0], n = length imgs, idx = 0, pbar_widget = 1,
      label_widget = (1, length imgs), auto_next_box = True\<rparr>"
    by (simp add: render_single_def set_progess_def render_img_Inr)
  show "single_inv imgs s"
    using ne i by (auto simp: s single_inv_def nth_list_update)
  show "idx s = 0" "rendered s = [0]" "seen s = (replicate (length imgs) False)[0 := True]"
    "labels s = labels self" "auto_next_box s"
    by (simp_all add: s)
qed

lemma ImageLabeler_single:
  assumes "ImageLabeler imgs dl False = Inr (Single s)"
  shows "\<exists>self. init imgs dl = Inr self \<and> render_single self = Inr s"
  using assms by (auto simp: ImageLabeler_def split: sum.splits)

lemma ImageLabeler_single_inv:
  assumes "ImageLabeler imgs dl False = Inr (Single s)"
  shows "single_inv imgs s"
  using ImageLabeler_single[OF assms] render_single_inv(1) by blast

lemma reachable_single_inv:
  assumes "ImageLabeler imgs dl False = Inr (Single s0)" and "run es s0 = Inr s"
  shows "single_inv imgs s"
  using run_inv[OF ImageLabeler_single_inv[OF assms(1)], of es] assms(2) by simp

text \<open>
  C1. In single mode over \<open>n\<close> images, after construction and after any
  sequence of events the current index lies in \<open>[0, n - 1]\<close>; Next adds
  exactly 1 to it when it is below \<open>n - 1\<close> and leaves it alone otherwise,
  and Previous subtracts exactly 1 when it is above 0 and leaves it alone
  otherwise. No sequence of events makes the labeler raise.
\<close>

theorem single_index_in_range:
  assumes "ImageLabeler imgs dl False = Inr (Single s0)"
  shows "\<exists>s. run es s0 = Inr s \<and> n s = length imgs \<and>
           0 \<le> int (idx s) \<and> int (idx s) \<le> int (n s) - 1 \<and>
           (\<exists>s'. fire Next s = Inr s' \<and>
                 int (idx s') = (if int (idx s) < int (n s) - 1
                                 then int (idx s) + 1 else int (idx s))) \<and>
           (\<exists>s'. fire Previous s = Inr s' \<and>
                 int (idx s') = (if int (idx s) > 0
                                 then int (idx s) - 1 else int (idx s)))"
proof -
  from run_inv[OF ImageLabeler_single_inv[OF assms], of es]
  obtain s where r: "run es s0 = Inr s" and i: "single_inv imgs s" by blast
  have a: "n s = length imgs" "int (idx s) \<le> int (n s) - 1"
    using i by (auto simp: single_inv_def)
  have b: "\<exists>s'. fire Next s = Inr s' \<and>
                 int (idx s') = (if int (idx s) < int (n s) - 1
                                 then int (idx s) + 1 else int (idx s))"
    by (simp add: next_img_eq[OF i] moved_def set_progess_def)
  have c: "\<exists>s'. fire Previous s = Inr s' \<and>
                 int (idx s') = (if int (idx s) > 0
                                 then int (idx s) - 1 else int (idx s))"
    by (simp add: prev_img_eq[OF i] moved_def set_progess_def)
  from r a b c show ?thesis by simp
qed

lemmas labeler_defs =
  ImageLabeler_def init_def render_single_def render_multi_def render_img_def
  render_img_multi_def load_image_def set_progess_def next_img_def prev_img_def
  cell_callback_def cell_callback_multi_def

theorem single_index_in_range_witness:
  "\<exists>s0 s. ImageLabeler [10, 20, 30 :: nat] (None :: string option list option) False
             = Inr (Single s0) \<and>
          run [Next, Next, Next, Previous] s0 = Inr s \<and> idx s = 1 \<and> n s = 3 \<and>
          int (idx s) \<le> int (n s) - 1"
proof -
  obtain s0 where c: "ImageLabeler [10, 20, 30 :: nat] (None :: string option list option) False
             = Inr (Single s0)"
    by (simp add: labeler_defs)
  from single_index_in_range[OF c, of "[Next, Next, Next, Previous]"]
  obtain s where s: "run [Next, Next, Next, Previous] s0 = Inr s" "n s = 3"
     "int (idx s) \<le> int (n s) - 1" by auto
  from c s(1) have "idx s = 1" by (auto simp: labeler_defs)
  with c s show ?thesis by blast
qed

subsection \<open>Multi mode\<close>

lemma render_img_multi_Inr:
  assumes "i < length (images m)" and "length (labels m) = length (images m)"
    and "length (seen m) = length (images m)"
  shows "render_img_multi i m =
     Inr (m\<lparr>displayed := displayed m @
                [\<lparr>cell_idx = i, cell_value = labels m ! i, img_widget = images m ! i\<rparr>],
            seen := (seen m)[i := True],
            rendered := rendered m @ [i]\<rparr>)"
  using assms by (simp add: render_img_multi_def load_image_def)

text \<open>
  The loop of \<^verbatim>\<open>_render_multi\<close> from index \<open>k\<close> on: it never raises, appends
  one cell per remaining image in order and sets the remaining flags.
\<close>

lemma render_each_upt:
  assumes "length (labels m) = length (images m)" and "length (seen m) = length (images m)"
    and "k \<le> length (images m)" and "d = length (images m) - k"
  shows "\<exists>m'. render_each [k..<length (images m)] m = Inr m' \<and>
           images m' = images m \<and> labels m' = labels m \<and>
           seen m' = take k (seen m) @ replicate (length (images m) - k) True \<and>
           displayed m' = displayed m @
              map (\<lambda>i. \<lparr>cell_idx = i, cell_value = labels m ! i, img_widget = images m ! i\<rparr>)
                [k..<length (images m)] \<and>
           rendered m' = rendered m @ [k..<length (images m)]"
  using assms
proof (induction d arbitrary: k m)
  case 0
  then show ?case by simp
next
  case (Suc d)
  let ?N = "length (images m)"
  let ?m1 = "m\<lparr>displayed := displayed m @
                 [\<lparr>cell_idx = k, cell_value = labels m ! k, img_widget = images m ! k\<rparr>],
               seen := (seen m)[k := True],
               rendered := rendered m @ [k]\<rparr>"
  from Suc.prems have lt: "k < ?N" by simp
  have r: "render_img_multi k m = Inr ?m1"
    using lt Suc.prems by (simp add: render_img_multi_Inr)
  have up: "[k..<?N] = k # [Suc k..<?N]" using lt by (simp add: upt_conv_Cons)
  have "\<exists>m'. render_each [Suc k..<length (images ?m1)] ?m1 = Inr m' \<and>
           images m' = images ?m1 \<and> labels m' = labels ?m1 \<and>
           seen m' = take (Suc k) (seen ?m1) @ replicate (length (images ?m1) - Suc k) True \<and>
           displayed m' = displayed ?m1 @
              map (\<lambda>i. \<lparr>cell_idx = i, cell_value = labels ?m1 ! i, img_widget = images ?m1 ! i\<rparr>)
                [Suc k..<length (images ?m1)] \<and>
           rendered m' = rendered ?m1 @ [Suc k..<length (images ?m1)]"
    using Suc.prems lt by (intro Suc.IH) simp_all
  then obtain m' where m': "render_each [Suc k..<?N] ?m1 = Inr m'"
    "images m' = images m" "labels m' = labels m"
    "seen m' = take (Suc k) ((seen m)[k := True]) @ replicate (?N - Suc k) True"
    "displayed m' = displayed m @
        [\<lparr>cell_idx = k, cell_value = labels m ! k, img_widget = images m ! k\<rparr>] @
        map (\<lambda>i. \<lparr>cell_idx = i, cell_value = labels m ! i, img_widget = images m ! i\<rparr>)
          [Suc k..<?N]"
    "rendered m' = rendered m @ [k] @ [Suc k..<?N]"
    by auto
  have s: "take (Suc k) ((seen m)[k := True]) @ replicate (?N - Suc k) True
         = take k (seen m) @ replicate (?N - k) True"
  proof -
    have "k < length ((seen m)[k := True])" using lt Suc.prems by simp
    then have "take (Suc k) ((seen m)[k := True]) = take k (seen m) @ [True]"
      by (simp add: take_Suc_conv_app_nth)
    moreover have "replicate (?N - k) True = True # replicate (?N - Suc k) True"
      using lt by (simp add: Suc_diff_Suc flip: replicate_Suc)
    ultimately show ?thesis by simp
  qed
  show ?case
    using m' r s up by simp
qed

lemma render_multi_Inr:
  assumes "init imgs dl = Inr self"
  shows "\<exists>m. render_multi self = Inr m \<and> labels m = labels self \<and> multi_inv imgs m \<and>
     map cell_value (displayed m) = labels self"
proof -
  note i = init_Inr[OF assms]
  from render_each_upt[of self 0 "length (images self)"] i
  obtain m where m: "render_multi self = Inr m" "images m = imgs" "labels m = labels self"
     "seen m = replicate (length imgs) True"
     "displayed m = map (\<lambda>i. \<lparr>cell_idx = i, cell_value = labels self ! i,
                               img_widget = imgs ! i\<rparr>) [0..<length imgs]"
     "rendered m = [0..<length imgs]"
    by (auto simp: render_multi_def)
  have a: "map cell_idx (displayed m) = [0..<length imgs]"
    by (simp add: m(5) comp_def)
  have b: "map img_widget (displayed m) = imgs"
    by (simp add: m(5) comp_def map_nth)
  have c: "map cell_value (displayed m) = labels self"
    using i(2) by (simp add: m(5) comp_def) (metis map_nth)
  from m a b c i(2) show ?thesis by (simp add: multi_inv_def)
qed

lemma ImageLabeler_multi:
  assumes "ImageLabeler imgs dl True = Inr (Multi m)"
  shows "\<exists>self. init imgs dl = Inr self \<and> render_multi self = Inr m"
  using assms by (auto simp: ImageLabeler_def split: sum.splits)

lemma ImageLabeler_multi_inv:
  assumes "ImageLabeler imgs dl True = Inr (Multi m)"
  shows "multi_inv imgs m"
  using ImageLabeler_multi[OF assms] render_multi_Inr[of imgs dl] by auto

lemma cell_callback_multi_inv:
  assumes "multi_inv imgs m" and "i < length imgs"
  shows "cell_callback_multi i v m = Inr (m\<lparr>labels := (labels m)[i := v]\<rparr>)"
    and "multi_inv imgs (m\<lparr>labels := (labels m)[i := v]\<rparr>)"
  using assms by (simp_all add: multi_inv_def cell_callback_multi_def)

lemma displayed_multi_idx:
  assumes "multi_inv imgs m" and "k < length (displayed m)"
  shows "cell_idx (displayed m ! k) = k" and "k < length imgs"
proof -
  have l: "length (displayed m) = length imgs"
    using assms(1) by (metis multi_inv_def length_map)
  then show "k < length imgs" using assms(2) by simp
  have "map cell_idx (displayed m) ! k = [0..<length imgs] ! k"
    using assms(1) by (simp add: multi_inv_def)
  then show "cell_idx (displayed m ! k) = k" using assms(2) l by simp
qed

lemma fire_multi_inv:
  assumes "multi_inv imgs m"
  shows "\<exists>m'. fire_multi e m = Inr m' \<and> multi_inv imgs m' \<and> seen m' = seen m \<and>
     rendered m' = rendered m"
proof (cases e)
  case (Pair k v)
  show ?thesis
  proof (cases "k < length (displayed m)")
    case True
    from displayed_multi_idx[OF assms True] cell_callback_multi_inv[OF assms, of k v]
    show ?thesis using Pair True by simp
  next
    case False
    then show ?thesis using Pair assms by simp
  qed
qed

lemma run_multi_inv:
  assumes "multi_inv imgs m"
  shows "\<exists>m'. run_multi es m = Inr m' \<and> multi_inv imgs m'"
  using assms
proof (induction es arbitrary: m)
  case Nil
  then show ?case by simp
next
  case (Cons e es)
  from fire_multi_inv[OF Cons.prems] obtain m1
    where "fire_multi e m = Inr m1" and "multi_inv imgs m1" by blast
  with Cons.IH[of m1] show ?case by simp
qed

lemma reachable_multi_inv:
  assumes "ImageLabeler imgs dl True = Inr (Multi m0)" and "run_multi es m0 = Inr m"
  shows "multi_inv imgs m"
  using run_multi_inv[OF ImageLabeler_multi_inv[OF assms(1)], of es] assms(2) by simp

text \<open>
  C2. In either mode, in every state reached after construction, the callback
  of the input cell wired to image \<open>i\<close> with the label \<open>v\<close> returns without
  raising, sets \<open>labels[i]\<close> to \<open>v\<close>, and leaves every other label, the
  length of the labels and the images as they were.
\<close>

theorem cell_callback_sets_one_label:
  "(ImageLabeler imgs dl False = Inr (Single s0) \<and> run es s0 = Inr s \<and> i < length imgs \<longrightarrow>
      (\<exists>s'. cell_callback i v s = Inr s' \<and>
            labels s' ! i = v \<and> (\<forall>j. j \<noteq> i \<longrightarrow> labels s' ! j = labels s ! j) \<and>
            length (labels s') = length (labels s) \<and> images s' = images s)) \<and>
   (ImageLabeler imgs dl True = Inr (Multi m0) \<and> run_multi ms m0 = Inr m \<and> i < length imgs \<longrightarrow>
      (\<exists>m'. cell_callback_multi i v m = Inr m' \<and>
            labels m' ! i = v \<and> (\<forall>j. j \<noteq> i \<longrightarrow> labels m' ! j = labels m ! j) \<and>
            length (labels m') = length (labels m) \<and> images m' = images m))"
proof (intro conjI impI; elim conjE)
  assume c: "ImageLabeler imgs dl False = Inr (Single s0)" and r: "run es s0 = Inr s"
    and i: "i < length imgs"
  note inv = reachable_single_inv[OF c r]
  with i have "i < length (labels s)" by (simp add: single_inv_def)
  then show "\<exists>s'. cell_callback i v s = Inr s' \<and>
            labels s' ! i = v \<and> (\<forall>j. j \<noteq> i \<longrightarrow> labels s' ! j = labels s ! j) \<and>
            length (labels s') = length (labels s) \<and> images s' = images s"
    by (simp add: cell_callback_eq[OF inv i] Let_def moved_def set_progess_def)
next
  assume c: "ImageLabeler imgs dl True = Inr (Multi m0)" and r: "run_multi ms m0 = Inr m"
    and i: "i < length imgs"
  note inv = reachable_multi_inv[OF c r]
  with i have "i < length (labels m)" by (simp add: multi_inv_def)
  then show "\<exists>m'. cell_callback_multi i v m = Inr m' \<and>
            labels m' ! i = v \<and> (\<forall>j. j \<noteq> i \<longrightarrow> labels m' ! j = labels m ! j) \<and>
            length (labels m') = length (labels m) \<and> images m' = images m"
    by (simp add: cell_callback_multi_inv(1)[OF inv i])
qed

theorem cell_callback_sets_one_label_witness:
  "\<exists>s0 s s' m0 m m'.
     ImageLabeler [10, 20, 30 :: nat] None False = Inr (Single s0) \<and>
     run [Next] s0 = Inr s \<and> (1::nat) < length [10, 20, 30 :: nat] \<and>
     cell_callback 1 (Some ''cat'') s = Inr s' \<and>
     labels s = [None, None, None] \<and> labels s' = [None, Some ''cat'', None] \<and>
     ImageLabeler [10, 20, 30 :: nat] None True = Inr (Multi m0) \<and>
     run_multi [(0, Some ''dog'')] m0 = Inr m \<and>
     cell_callback_multi 1 (Some ''cat'') m = Inr m' \<and>
     labels m = [Some ''dog'', None, None] \<and> labels m' = [Some ''dog'', Some ''cat'', None]"
proof -
  obtain s0 where c: "ImageLabeler [10, 20, 30 :: nat] (None :: string option list option) False
      = Inr (Single s0)"
    by (simp add: labeler_defs)
  obtain s where r: "run [Next] s0 = Inr s"
    using c by (auto simp: labeler_defs)
  have ls: "labels s = [None, None, None]"
    using c r by (auto simp: labeler_defs)
  obtain m0 where cm: "ImageLabeler [10, 20, 30 :: nat] (None :: string option list option) True
      = Inr (Multi m0)"
    by (simp add: labeler_defs upt_rec)
  obtain m where rm: "run_multi [(0, Some ''dog'')] m0 = Inr m"
    using cm by (auto simp: labeler_defs upt_rec)
  have lm: "labels m = [Some ''dog'', None, None]"
    using cm rm by (auto simp: labeler_defs upt_rec)
  have i: "(1::nat) < length [10, 20, 30 :: nat]" by simp
  from cell_callback_sets_one_label
         [of "[10, 20, 30]" None s0 "[Next]" s 1 "Some ''cat''" m0 "[(0, Some ''dog'')]" m]
    c r cm rm i
  obtain s' m' where
    s': "cell_callback 1 (Some ''cat'') s = Inr s'" "labels s' ! 1 = Some ''cat''"
        "\<forall>j. j \<noteq> 1 \<longrightarrow> labels s' ! j = labels s ! j" "length (labels s') = length (labels s)"
    and m': "cell_callback_multi 1 (Some ''cat'') m = Inr m'" "labels m' ! 1 = Some ''cat''"
        "\<forall>j. j \<noteq> 1 \<longrightarrow> labels m' ! j = labels m ! j" "length (labels m') = length (labels m)"
    by auto
  have "labels s' = [None, Some ''cat'', None]"
    using s'(2,4) s'(3)[rule_format, of 0] s'(3)[rule_format, of 2] ls
    by (intro nth_equalityI) (auto simp: less_Suc_eq numeral_3_eq_3 numeral_2_eq_2)
  moreover have "labels m' = [Some ''dog'', Some ''cat'', None]"
    using m'(2,4) m'(3)[rule_format, of 0] m'(3)[rule_format, of 2] lm
    by (intro nth_equalityI) (auto simp: less_Suc_eq numeral_3_eq_3 numeral_2_eq_2)
  ultimately show ?thesis
    using c r i s'(1) ls cm rm m'(1) lm by blast
qed



text \<open>
  C6. In multi mode over \<open>n\<close> images, construction (with default labels of
  the right length, or none) succeeds, renders the images \<open>0, 1, ..., n - 1\<close>
  once each in that order, each with an input cell of its own, and marks all
  of them seen, so \<^verbatim>\<open>all_seen\<close> holds right after construction.
\<close>

theorem multi_renders_all_in_order:
  assumes "\<forall>ls. dl = Some ls \<longrightarrow> length ls = length imgs"
  shows "\<exists>m. ImageLabeler imgs dl True = Inr (Multi m) \<and>
           rendered m = [0..<length imgs] \<and>
           map cell_idx (displayed m) = [0..<length imgs] \<and>
           map img_widget (displayed m) = imgs \<and>
           map cell_value (displayed m) = labels m \<and>
           seen m = replicate (length imgs) True \<and> all_seen m"
proof -
  from init_total[OF assms] obtain self where i: "init imgs dl = Inr self" by blast
  from render_multi_Inr[OF i] obtain m where m: "render_multi self = Inr m"
    "labels m = labels self" "multi_inv imgs m" "map cell_value (displayed m) = labels self"
    by blast
  have "ImageLabeler imgs dl True = Inr (Multi m)"
    using i m(1) by (simp add: ImageLabeler_def)
  moreover have "all_seen m"
    using m(3) by (simp add: multi_inv_def all_seen_def list_all_iff)
  ultimately show ?thesis using m by (auto simp: multi_inv_def)
qed

theorem multi_renders_all_in_order_witness:
  "length [Some ''x'', None, Some ''z''] = length [10, 20, 30 :: nat] \<and>
   (\<exists>m. ImageLabeler [10, 20, 30 :: nat] (Some [Some ''x'', None, Some ''z'']) True = Inr (Multi m) \<and>
        rendered m = [0, 1, 2] \<and> map cell_idx (displayed m) = [0, 1, 2] \<and>
        seen m = [True, True, True] \<and> all_seen m)"
proof -
  have h: "\<forall>ls. Some [Some ''x'', None, Some ''z''] = Some ls \<longrightarrow> length ls = length [10, 20, 30 :: nat]"
    by simp
  have u: "[0..<length [10, 20, 30 :: nat]] = [0, 1, 2]"
    by (simp add: upt_rec)
  have v: "replicate (length [10, 20, 30 :: nat]) True = [True, True, True]"
    by (simp add: numeral_3_eq_3)
  from multi_renders_all_in_order[OF h]
  obtain m where "ImageLabeler [10, 20, 30 :: nat] (Some [Some ''x'', None, Some ''z'']) True
        = Inr (Multi m)"
    "rendered m = [0, 1, 2]" "map cell_idx (displayed m) = [0, 1, 2]"
    "seen m = [True, True, True]" "all_seen m"
    unfolding u v by auto
  then show ?thesis by simp
qed

lemma fire_seen_rendered:
  assumes "single_inv imgs s" and "fire e s = Inr s'"
  shows "set (rendered s') = set (rendered s) \<union> {idx s'}"
    and "i < length imgs \<Longrightarrow> seen s ! i \<Longrightarrow> seen s' ! i"
proof -
  have r: "idx s \<in> set (rendered s)" and l: "length (seen s) = length imgs"
    using assms(1) by (simp_all add: single_inv_def)
  have mv: "set (rendered (moved k t)) = set (rendered t) \<union> {idx (moved k t)}" for k and t :: "('a, 'b) single"
    by (simp add: moved_def)
  have sp: "set (rendered (set_progess t)) = set (rendered t)" "idx (set_progess t) = idx t"
    "seen (set_progess t) = seen t" for t :: "('a, 'b) single"
    by (simp_all add: set_progess_def)
  have ms: "seen (moved k t) = (seen t)[k := True]" for k and t :: "('a, 'b) single"
    by (simp add: moved_def)
  have both: "set (rendered s') = set (rendered s) \<union> {idx s'} \<and>
      (seen s' = seen s \<or> (\<exists>k. seen s' = (seen s)[k := True]))"
  proof (cases e)
    case Next
    with assms(2) r show ?thesis
      by (auto simp: next_img_eq[OF assms(1)] moved_def set_progess_def split: if_splits)
  next
    case Previous
    with assms(2) r show ?thesis
      by (auto simp: prev_img_eq[OF assms(1)] moved_def set_progess_def split: if_splits)
  next
    case (AutoAdvance b)
    with assms(2) r show ?thesis by auto
  next
    case (CellInput k v)
    show ?thesis
    proof (cases "k < length (displayed s)")
      case True
      with assms(1) have "k = 0" by (simp add: single_inv_def)
      with assms(1) have j: "cell_idx (displayed s ! k) < length imgs"
        by (simp add: single_inv_def)
      from assms(2) r CellInput True show ?thesis
        by (auto simp: cell_callback_eq[OF assms(1) j] Let_def moved_def set_progess_def
            split: if_splits)
    next
      case False
      with assms(2) r CellInput show ?thesis by auto
    qed
  qed
  then show "set (rendered s') = set (rendered s) \<union> {idx s'}" by simp
  show "seen s' ! i" if "i < length imgs" "seen s ! i"
  proof -
    have "(seen s)[k := True] ! i" for k
      using that l by (cases "k = i") simp_all
    with both that show ?thesis by auto
  qed
qed

lemma states_hd: "s \<in> set (states es s)"
  by (cases es) simp_all

lemma run_seen_rendered:
  assumes "single_inv imgs s" and "run es s = Inr s'"
  shows "set (rendered s') = set (rendered s) \<union> idx ` set (states es s)"
    and "i < length imgs \<Longrightarrow> seen s ! i \<Longrightarrow> seen s' ! i"
  using assms
proof (induction es arbitrary: s)
  case Nil
  { case 1 then show ?case by (auto simp: single_inv_def) }
  { case 2 then show ?case by simp }
next
  case (Cons e es)
  { case 1
    from fire_inv[OF 1(1)] obtain s1 where f: "fire e s = Inr s1" and i1: "single_inv imgs s1"
      by blast
    with 1(2) have r: "run es s1 = Inr s'" by simp
    have "idx s \<in> set (rendered s)" using 1(1) by (simp add: single_inv_def)
    moreover have "idx s1 \<in> idx ` set (states es s1)" using states_hd by blast
    ultimately show ?case
      using Cons.IH(1)[OF i1 r] fire_seen_rendered(1)[OF 1(1) f] f by auto }
  { case 2
    from fire_inv[OF 2(3)] obtain s1 where f: "fire e s = Inr s1" and i1: "single_inv imgs s1"
      by blast
    with 2(4) have r: "run es s1 = Inr s'" by simp
    from fire_seen_rendered(2)[OF 2(3) f 2(1) 2(2)] have "seen s1 ! i" .
    from Cons.IH(2)[OF 2(1) this i1 r] show ?case . }
qed

text \<open>
  C7. The seen flags only grow: no event turns a flag from true to false, in
  either mode. In every reachable state image \<open>i\<close> is seen exactly when it
  has been rendered; in single mode only image 0 is seen after construction,
  and the seen images are exactly the indices the labeler has visited.
\<close>

theorem seen_monotone_and_exact:
  "(ImageLabeler imgs dl False = Inr (Single s0) \<and> run es s0 = Inr s \<and> i < length imgs \<longrightarrow>
      (seen s0 ! i \<longleftrightarrow> i = 0) \<and> rendered s0 = [0] \<and>
      (seen s ! i \<longleftrightarrow> i \<in> set (rendered s)) \<and>
      (seen s ! i \<longleftrightarrow> i \<in> idx ` set (states es s0)) \<and>
      (seen s0 ! i \<longrightarrow> seen s ! i) \<and>
      (\<forall>e. \<exists>s'. fire e s = Inr s' \<and> (seen s ! i \<longrightarrow> seen s' ! i))) \<and>
   (ImageLabeler imgs dl True = Inr (Multi m0) \<and> run_multi ms m0 = Inr m \<and> i < length imgs \<longrightarrow>
      seen m0 ! i \<and> seen m ! i \<and> i \<in> set (rendered m) \<and>
      (\<forall>e. \<exists>m'. fire_multi e m = Inr m' \<and> seen m' ! i \<and> rendered m' = rendered m))"
proof (intro conjI impI; elim conjE)
  assume c: "ImageLabeler imgs dl False = Inr (Single s0)" and r: "run es s0 = Inr s"
    and i: "i < length imgs"
  from ImageLabeler_single[OF c] obtain self
    where self: "init imgs dl = Inr self" "render_single self = Inr s0" by blast
  note s0 = render_single_inv[OF self]
  note inv = reachable_single_inv[OF c r]
  show "seen s0 ! i \<longleftrightarrow> i = 0" using i by (cases "i = 0") (simp_all add: s0(4))
  show "rendered s0 = [0]" by (rule s0(3))
  show a: "seen s ! i \<longleftrightarrow> i \<in> set (rendered s)" using inv i by (simp add: single_inv_def)
  have "idx s0 \<in> idx ` set (states es s0)"
    using states_hd[of s0 es] by (rule imageI)
  then have "0 \<in> idx ` set (states es s0)" by (simp only: s0(2))
  then show "seen s ! i \<longleftrightarrow> i \<in> idx ` set (states es s0)"
    by (auto simp: a run_seen_rendered(1)[OF s0(1) r] s0(3))
  show "seen s ! i" if "seen s0 ! i"
    using run_seen_rendered(2)[OF s0(1) r i] that by blast
  show "\<forall>e. \<exists>s'. fire e s = Inr s' \<and> (seen s ! i \<longrightarrow> seen s' ! i)"
  proof
    fix e
    from fire_inv[OF inv, of e] obtain s' where f: "fire e s = Inr s'" by blast
    with fire_seen_rendered(2)[OF inv f i]
    show "\<exists>s'. fire e s = Inr s' \<and> (seen s ! i \<longrightarrow> seen s' ! i)" by blast
  qed
next
  assume c: "ImageLabeler imgs dl True = Inr (Multi m0)" and r: "run_multi ms m0 = Inr m"
    and i: "i < length imgs"
  note inv0 = ImageLabeler_multi_inv[OF c]
  note inv = reachable_multi_inv[OF c r]
  show "seen m0 ! i" using inv0 i by (simp add: multi_inv_def)
  show "seen m ! i" using inv i by (simp add: multi_inv_def)
  show "i \<in> set (rendered m)" using inv i by (simp add: multi_inv_def)
  show "\<forall>e. \<exists>m'. fire_multi e m = Inr m' \<and> seen m' ! i \<and> rendered m' = rendered m"
  proof
    fix e :: "nat \<times> 'b option"
    from fire_multi_inv[OF inv, of e] obtain m' where "fire_multi e m = Inr m'"
      "seen m' = seen m" "rendered m' = rendered m" by blast
    with \<open>seen m ! i\<close>
    show "\<exists>m'. fire_multi e m = Inr m' \<and> seen m' ! i \<and> rendered m' = rendered m" by simp
  qed
qed

theorem seen_monotone_and_exact_witness:
  "\<exists>s0 s m0 m.
     ImageLabeler [10, 20, 30 :: nat] (None :: string option list option) False
       = Inr (Single s0) \<and>
     run [Next, Previous] s0 = Inr s \<and> (1::nat) < length [10, 20, 30 :: nat] \<and>
     \<not> seen s0 ! 1 \<and> rendered s = [0, 1, 0] \<and> seen s ! 1 \<and>
     ImageLabeler [10, 20, 30 :: nat] (None :: string option list option) True
       = Inr (Multi m0) \<and>
     run_multi [(1, Some ''a'')] m0 = Inr m \<and> seen m ! 1"
proof -
  obtain s0 where c: "ImageLabeler [10, 20, 30 :: nat] (None :: string option list option) False
      = Inr (Single s0)"
    by (simp add: labeler_defs)
  obtain s where r: "run [Next, Previous] s0 = Inr s"
    using c by (auto simp: labeler_defs)
  have rs: "rendered s = [0, 1, 0]"
    using c r by (auto simp: labeler_defs)
  obtain m0 where cm: "ImageLabeler [10, 20, 30 :: nat] (None :: string option list option) True
      = Inr (Multi m0)"
    by (simp add: labeler_defs upt_rec)
  obtain m where rm: "run_multi [(1, Some ''a'')] m0 = Inr m"
    using cm by (auto simp: labeler_defs upt_rec)
  have i: "(1::nat) < length [10, 20, 30 :: nat]" by simp
  from seen_monotone_and_exact
         [of "[10, 20, 30]" None s0 "[Next, Previous]" s 1 m0 "[(1, Some ''a'')]" m]
    c r cm rm i
  have t: "seen s0 ! 1 \<longleftrightarrow> (1::nat) = 0" "seen s ! 1 \<longleftrightarrow> 1 \<in> set (rendered s)" "seen m ! 1"
    by blast+
  from t(1) have a: "\<not> seen s0 ! 1" by simp
  from t(2) have b: "seen s ! 1" by (simp add: rs)
  show ?thesis
    by (rule exI[of _ s0], rule exI[of _ s], rule exI[of _ m0], rule exI[of _ m],
        intro conjI) (rule c r i a rs b cm rm t(3))+
qed

text \<open>
  C8. Without default labels the constructor starts from \<open>len(images)\<close> labels
  \<^verbatim>\<open>None\<close> and seen flags all false. Default labels of another length than
  the images fail the assertion; default labels of the same length become the
  labels as they are.
\<close>

theorem init_labels_and_seen:
  "(\<exists>self. init imgs (None :: 'l option list option) = Inr self \<and>
           images self = imgs \<and>
           labels self = replicate (length imgs) None \<and>
           seen self = replicate (length imgs) False) \<and>
   (length ls \<noteq> length imgs \<longrightarrow>
      init imgs (Some (ls :: 'l option list)) = Inl AssertionError \<and>
      ImageLabeler imgs (Some ls) multi_mode = Inl AssertionError) \<and>
   (length ls = length imgs \<longrightarrow>
      (\<exists>self. init imgs (Some ls) = Inr self \<and> images self = imgs \<and> labels self = ls \<and>
              seen self = replicate (length imgs) False) \<and>
      (\<forall>m. ImageLabeler imgs (Some ls) True = Inr (Multi m) \<longrightarrow> labels m = ls) \<and>
      (\<forall>s. ImageLabeler imgs (Some ls) False = Inr (Single s) \<longrightarrow> labels s = ls))"
proof (intro conjI impI allI)
  show "\<exists>self. init imgs (None :: 'l option list option) = Inr self \<and>
           images self = imgs \<and>
           labels self = replicate (length imgs) None \<and>
           seen self = replicate (length imgs) False"
    by (simp add: init_def)
next
  assume "length ls \<noteq> length imgs"
  then show "init imgs (Some ls) = Inl AssertionError"
    and "ImageLabeler imgs (Some ls) multi_mode = Inl AssertionError"
    by (simp_all add: init_def ImageLabeler_def)
next
  assume l: "length ls = length imgs"
  then show "\<exists>self. init imgs (Some ls) = Inr self \<and> images self = imgs \<and> labels self = ls \<and>
              seen self = replicate (length imgs) False"
    by (simp add: init_def)
next
  fix m :: "('a, 'l) labeler"
  assume l: "length ls = length imgs" and c: "ImageLabeler imgs (Some ls) True = Inr (Multi m)"
  from ImageLabeler_multi[OF c] obtain self
    where s: "init imgs (Some ls) = Inr self" "render_multi self = Inr m" by blast
  from s(1) l have "labels self = ls" by (auto simp: init_def)
  with render_multi_Inr[OF s(1)] s(2) show "labels m = ls" by auto
next
  fix s :: "('a, 'l) single"
  assume l: "length ls = length imgs" and c: "ImageLabeler imgs (Some ls) False = Inr (Single s)"
  from ImageLabeler_single[OF c] obtain self
    where s: "init imgs (Some ls) = Inr self" "render_single self = Inr s" by blast
  from s(1) l have "labels self = ls" by (auto simp: init_def)
  with render_single_inv(5)[OF s] show "labels s = ls" by simp
qed

theorem init_labels_and_seen_witness:
  "length [Some ''a''] \<noteq> length [10, 20 :: nat] \<and>
   ImageLabeler [10, 20 :: nat] (Some [Some ''a'']) False = Inl AssertionError \<and>
   ImageLabeler [10, 20 :: nat] (Some [Some ''a'']) True = Inl AssertionError \<and>
   length [Some ''a'', None] = length [10, 20 :: nat] \<and>
   (\<exists>self. init [10, 20 :: nat] (Some [Some ''a'', None]) = Inr self \<and>
           labels self = [Some ''a'', None] \<and> seen self = [False, False]) \<and>
   (\<exists>m. ImageLabeler [10, 20 :: nat] (Some [Some ''a'', None]) True = Inr (Multi m) \<and>
        labels m = [Some ''a'', None]) \<and>
   (\<exists>s. ImageLabeler [10, 20 :: nat] (Some [Some ''a'', None]) False = Inr (Single s) \<and>
        labels s = [Some ''a'', None])"
proof -
  have h1: "length [Some ''a''] \<noteq> length [10, 20 :: nat]" by simp
  have h2: "length [Some ''a'', None] = length [10, 20 :: nat]" by simp
  obtain m where cm: "ImageLabeler [10, 20 :: nat] (Some [Some ''a'', None]) True = Inr (Multi m)"
    by (simp add: labeler_defs upt_rec)
  obtain s where cs: "ImageLabeler [10, 20 :: nat] (Some [Some ''a'', None]) False = Inr (Single s)"
    by (simp add: labeler_defs)
  have v: "replicate (length [10, 20 :: nat]) False = [False, False]"
    by (simp add: numeral_2_eq_2)
  from init_labels_and_seen[of "[10, 20 :: nat]" "[Some ''a'']" False] h1
  have a: "ImageLabeler [10, 20 :: nat] (Some [Some ''a'']) False = Inl AssertionError" by blast
  from init_labels_and_seen[of "[10, 20 :: nat]" "[Some ''a'']" True] h1
  have b: "ImageLabeler [10, 20 :: nat] (Some [Some ''a'']) True = Inl AssertionError" by blast
  from init_labels_and_seen[of "[10, 20 :: nat]" "[Some ''a'', None]" True] h2
  have d: "\<exists>self. init [10, 20 :: nat] (Some [Some ''a'', None]) = Inr self \<and>
           labels self = [Some ''a'', None] \<and> seen self = [False, False]"
    and e: "\<forall>m. ImageLabeler [10, 20 :: nat] (Some [Some ''a'', None]) True = Inr (Multi m) \<longrightarrow>
           labels m = [Some ''a'', None]"
    and f: "\<forall>s. ImageLabeler [10, 20 :: nat] (Some [Some ''a'', None]) False = Inr (Single s) \<longrightarrow>
           labels s = [Some ''a'', None]"
    unfolding v by blast+
  from e cm have e': "\<exists>m. ImageLabeler [10, 20 :: nat] (Some [Some ''a'', None]) True = Inr (Multi m) \<and>
        labels m = [Some ''a'', None]" by blast
  from f cs have f': "\<exists>s. ImageLabeler [10, 20 :: nat] (Some [Some ''a'', None]) False = Inr (Single s) \<and>
        labels s = [Some ''a'', None]" by blast
  show ?thesis
    by (intro conjI) (rule h1 a b h2 d e' f')+
qed

section \<open>Properties of the input cell factories\<close>

lemma BoundedIntText_value:
  "bit_value (BoundedIntText v 0 100) = min (max v 0) 100"
  "bit_min (BoundedIntText v 0 100) = 0" "bit_max (BoundedIntText v 0 100) = 100"
  by (simp_all add: BoundedIntText_def set_value_def validate_value_def)

lemma new_fields:
  "tp_widget (DetectorValidationInputCellFactory_new cb v) =
     BoundedIntText (case v of None \<Rightarrow> 0 | Some r \<Rightarrow> tp r) 0 100"
  "fp_widget (DetectorValidationInputCellFactory_new cb v) =
     BoundedIntText (case v of None \<Rightarrow> 0 | Some r \<Rightarrow> fp r) 0 100"
  "fn_widget (DetectorValidationInputCellFactory_new cb v) =
     BoundedIntText (case v of None \<Rightarrow> 0 | Some r \<Rightarrow> fn r) 0 100"
  "submit_btn (DetectorValidationInputCellFactory_new cb v) = [on_submit cb]"
  by (cases v; simp add: DetectorValidationInputCellFactory_new_def)+

lemma set_value_bounds:
  assumes "bit_min w = 0" and "bit_max w = 100"
  shows "bit_min (set_value v w) = 0" and "bit_max (set_value v w) = 100"
    and "0 \<le> bit_value (set_value v w)" and "bit_value (set_value v w) \<le> 100"
  using assms by (auto simp: set_value_def validate_value_def)

lemma set_value_ok: "widget_ok w \<Longrightarrow> widget_ok (set_value v w)"
  by (simp add: widget_ok_def set_value_bounds)

lemma BoundedIntText_ok: "widget_ok (BoundedIntText v 0 100)"
  by (simp add: widget_ok_def BoundedIntText_value)

lemma new_box_ok: "box_ok cb (DetectorValidationInputCellFactory_new cb v)"
  by (simp add: box_ok_def new_fields BoundedIntText_ok)

lemma operate_box_ok:
  assumes "box_ok cb (fst bs)"
  shows "box_ok cb (fst (operate e bs))"
proof -
  obtain b s where bs: "bs = (b, s)" by (cases bs)
  from assms show ?thesis
    unfolding bs by (cases e) (simp_all add: box_ok_def set_value_ok)
qed

lemma fold_operate_box_ok:
  assumes "box_ok cb (fst bs)"
  shows "box_ok cb (fst (fold operate es bs))"
  using assms by (induction es arbitrary: bs) (simp_all add: operate_box_ok)

lemma operate_log:
  assumes "box_ok record_call (fst bs)" and "list_all in_bounds (snd bs)"
  shows "list_all in_bounds (snd (operate e bs))"
proof -
  obtain b s where bs: "bs = (b, s)" by (cases bs)
  from assms show ?thesis
    unfolding bs
    by (cases e)
       (simp_all add: box_ok_def widget_ok_def on_submit_def record_call_def in_bounds_def)
qed

lemma fold_operate_log:
  assumes "box_ok record_call (fst bs)" and "list_all in_bounds (snd bs)"
  shows "list_all in_bounds (snd (fold operate es bs))"
  using assms
proof (induction es arbitrary: bs)
  case Nil
  then show ?case by simp
next
  case (Cons e es)
  have "box_ok record_call (fst (operate e bs))"
    by (rule operate_box_ok[OF Cons.prems(1)])
  moreover have "list_all in_bounds (snd (operate e bs))"
    by (rule operate_log[OF Cons.prems])
  ultimately show ?case using Cons.IH[of "operate e bs"] by simp
qed

lemma select_fields:
  "tb_options (fst (select v ws)) = tb_options (fst ws)"
  "tb_observers (fst (select v ws)) = tb_observers (fst ws)"
  by (simp_all add: select_def Let_def)

lemma fold_select_fields:
  "tb_options (fst (fold select vs ws)) = tb_options (fst ws) \<and>
   tb_observers (fst (fold select vs ws)) = tb_observers (fst ws)"
  by (induction vs arbitrary: ws) (simp_all add: select_fields)

lemma select_new:
  "select v (selector_after f cb v0 vs s0) =
     (if v \<in> set (classes f) \<and> v \<noteq> tb_value (fst (selector_after f cb v0 vs s0))
      then ((fst (selector_after f cb v0 vs s0))\<lparr>tb_value := v\<rparr>,
            cb v (snd (selector_after f cb v0 vs s0)))
      else selector_after f cb v0 vs s0)"
proof -
  have "tb_options (fst (selector_after f cb v0 vs s0)) = classes f"
    "tb_observers (fst (selector_after f cb v0 vs s0)) = [on_change cb]"
    by (simp_all add: fold_select_fields MultiClassInputCellFactory_new_def Let_def)
  then show ?thesis
    by (simp add: select_def[of v "selector_after f cb v0 vs s0"] Let_def on_change_def)
qed

lemma click_submit_box:
  assumes "box_ok cb bx"
  shows "operate ClickSubmit (bx, s) =
     (bx, cb \<lparr>tp = bit_value (tp_widget bx), fp = bit_value (fp_widget bx),
               fn = bit_value (fn_widget bx)\<rparr> s)"
  using assms by (simp add: box_ok_def on_submit_def)

lemma enter_keeps_state:
  "snd (operate (EnterTp x) bs) = snd bs" "snd (operate (EnterFp x) bs) = snd bs"
  "snd (operate (EnterFn x) bs) = snd bs"
  by (cases bs; simp)+

text \<open>
  C4. Both factories return a control wired to the result callback. For the
  class selector, after any selections, picking an offered class other than
  the selected one makes it the selection and calls the callback once with
  it, and nothing else calls the callback. For the validation counters,
  after any use, a click on Submit calls the callback once with the
  \<^verbatim>\<open>ValResult\<close> of the three counters' values at that moment, and entering
  numbers does not call it.
\<close>

theorem controls_invoke_result_callback:
  "select v (selector_after f cb v0 vs s0) =
     (if v \<in> set (classes f) \<and> v \<noteq> tb_value (fst (selector_after f cb v0 vs s0))
      then ((fst (selector_after f cb v0 vs s0))\<lparr>tb_value := v\<rparr>,
            cb v (snd (selector_after f cb v0 vs s0)))
      else selector_after f cb v0 vs s0) \<and>
   operate ClickSubmit (counters_after cb' r0 es t0) =
     (fst (counters_after cb' r0 es t0),
      cb' \<lparr>tp = bit_value (tp_widget (fst (counters_after cb' r0 es t0))),
           fp = bit_value (fp_widget (fst (counters_after cb' r0 es t0))),
           fn = bit_value (fn_widget (fst (counters_after cb' r0 es t0)))\<rparr>
        (snd (counters_after cb' r0 es t0))) \<and>
   snd (operate (EnterTp x) (counters_after cb' r0 es t0)) = snd (counters_after cb' r0 es t0) \<and>
   snd (operate (EnterFp x) (counters_after cb' r0 es t0)) = snd (counters_after cb' r0 es t0) \<and>
   snd (operate (EnterFn x) (counters_after cb' r0 es t0)) = snd (counters_after cb' r0 es t0)"
proof (intro conjI)
  show "select v (selector_after f cb v0 vs s0) =
     (if v \<in> set (classes f) \<and> v \<noteq> tb_value (fst (selector_after f cb v0 vs s0))
      then ((fst (selector_after f cb v0 vs s0))\<lparr>tb_value := v\<rparr>,
            cb v (snd (selector_after f cb v0 vs s0)))
      else selector_after f cb v0 vs s0)"
    by (rule select_new)
next
  obtain bx t where bs: "counters_after cb' r0 es t0 = (bx, t)"
    by (cases "counters_after cb' r0 es t0")
  have "box_ok cb' (fst (counters_after cb' r0 es t0))"
    by (rule fold_operate_box_ok) (simp add: new_box_ok)
  then have "box_ok cb' bx" by (simp add: bs)
  from click_submit_box[OF this, of t]
  show "operate ClickSubmit (counters_after cb' r0 es t0) =
     (fst (counters_after cb' r0 es t0),
      cb' \<lparr>tp = bit_value (tp_widget (fst (counters_after cb' r0 es t0))),
           fp = bit_value (fp_widget (fst (counters_after cb' r0 es t0))),
           fn = bit_value (fn_widget (fst (counters_after cb' r0 es t0)))\<rparr>
        (snd (counters_after cb' r0 es t0)))"
    by (simp only: bs fst_conv snd_conv)
qed (rule enter_keeps_state)+

lemmas factory_defs =
  MultiClassInputCellFactory_init_def MultiClassInputCellFactory_new_def select_def
  on_change_def DetectorValidationInputCellFactory_new_def BoundedIntText_def
  set_value_def validate_value_def on_submit_def record_call_def

theorem controls_invoke_result_callback_witness:
  "snd (select (PStr ''dog'')
          (selector_after \<lparr>classes = [PStr ''cat'', PStr ''dog''], default_class = PStr ''cat''\<rparr>
             record_call PNone [] [])) = [PStr ''dog''] \<and>
   snd (select (PStr ''cat'')
          (selector_after \<lparr>classes = [PStr ''cat'', PStr ''dog''], default_class = PStr ''cat''\<rparr>
             record_call PNone [] [])) = [] \<and>
   snd (operate ClickSubmit (counters_after record_call None [EnterTp 5, EnterFn 2] [])) =
     [\<lparr>tp = 5, fp = 0, fn = 2\<rparr>]"
proof -
  let ?f = "\<lparr>classes = [PStr ''cat'', PStr ''dog''], default_class = PStr ''cat''\<rparr>"
  have a: "tb_value (fst (selector_after ?f (record_call :: pyval \<Rightarrow> _) PNone [] [])) = PStr ''cat''"
    by (simp add: factory_defs)
  have b: "bit_value (tp_widget (fst (counters_after (record_call :: ValResult \<Rightarrow> _) None
              [EnterTp 5, EnterFn 2] []))) = 5"
    "bit_value (fp_widget (fst (counters_after (record_call :: ValResult \<Rightarrow> _) None
              [EnterTp 5, EnterFn 2] []))) = 0"
    "bit_value (fn_widget (fst (counters_after (record_call :: ValResult \<Rightarrow> _) None
              [EnterTp 5, EnterFn 2] []))) = 2"
    "snd (counters_after (record_call :: ValResult \<Rightarrow> _) None [EnterTp 5, EnterFn 2] []) = []"
    by (simp_all add: factory_defs)
  note t = controls_invoke_result_callback
             [where f = ?f and cb = record_call and ?v0.0 = PNone and vs = "[]" and ?s0.0 = "[]"
                and cb' = record_call and ?r0.0 = None and es = "[EnterTp 5, EnterFn 2]"
                and ?t0.0 = "[]"]
  have "snd (select (PStr ''dog'') (selector_after ?f record_call PNone [] [])) = [PStr ''dog'']"
    using t[where v = "PStr ''dog''", THEN conjunct1] a by (simp add: record_call_def)
  moreover have "snd (select (PStr ''cat'') (selector_after ?f record_call PNone [] [])) = []"
    using t[where v = "PStr ''cat''", THEN conjunct1] a by simp
  moreover have "snd (operate ClickSubmit (counters_after record_call None [EnterTp 5, EnterFn 2] [])) =
     [\<lparr>tp = 5, fp = 0, fn = 2\<rparr>]"
    using t[THEN conjunct2, THEN conjunct1] by (simp only: b snd_conv record_call_def append_Nil)
  ultimately show ?thesis by (intro conjI)
qed

text \<open>
  C5. Each of the three counters holds an integer in \<open>[0, 100]\<close> at all
  times, whatever initial value is given and whatever is entered, so every
  \<^verbatim>\<open>ValResult\<close> delivered to the callback on submit has \<open>tp\<close>, \<open>fp\<close> and
  \<open>fn\<close> in \<open>[0, 100]\<close>.
\<close>

theorem submitted_counts_in_bounds:
  "(\<forall>r \<in> set (snd (counters_after record_call v0 es [])).
      0 \<le> tp r \<and> tp r \<le> 100 \<and> 0 \<le> fp r \<and> fp r \<le> 100 \<and> 0 \<le> fn r \<and> fn r \<le> 100) \<and>
   0 \<le> bit_value (tp_widget (fst (counters_after cb v0 es t0))) \<and>
   bit_value (tp_widget (fst (counters_after cb v0 es t0))) \<le> 100 \<and>
   0 \<le> bit_value (fp_widget (fst (counters_after cb v0 es t0))) \<and>
   bit_value (fp_widget (fst (counters_after cb v0 es t0))) \<le> 100 \<and>
   0 \<le> bit_value (fn_widget (fst (counters_after cb v0 es t0))) \<and>
   bit_value (fn_widget (fst (counters_after cb v0 es t0))) \<le> 100"
proof -
  have "list_all in_bounds (snd (counters_after record_call v0 es []))"
    by (rule fold_operate_log) (simp_all add: new_box_ok)
  then have a: "\<forall>r \<in> set (snd (counters_after record_call v0 es [])).
      0 \<le> tp r \<and> tp r \<le> 100 \<and> 0 \<le> fp r \<and> fp r \<le> 100 \<and> 0 \<le> fn r \<and> fn r \<le> 100"
    by (simp add: list_all_iff in_bounds_def)
  have "box_ok cb (fst (counters_after cb v0 es t0))"
    by (rule fold_operate_box_ok) (simp add: new_box_ok)
  then have b: "widget_ok (tp_widget (fst (counters_after cb v0 es t0)))"
    "widget_ok (fp_widget (fst (counters_after cb v0 es t0)))"
    "widget_ok (fn_widget (fst (counters_after cb v0 es t0)))"
    by (simp_all add: box_ok_def)
  from a b show ?thesis by (simp only: widget_ok_def simp_thms)
qed

theorem submitted_counts_in_bounds_witness:
  "\<lparr>tp = 100, fp = 3, fn = 0\<rparr> \<in>
     set (snd (counters_after record_call (Some \<lparr>tp = 150, fp = 3, fn = 7\<rparr>)
                 [EnterTp 250, ClickSubmit, EnterFn (- 4), ClickSubmit] [])) \<and>
   0 \<le> tp \<lparr>tp = 100, fp = 3, fn = 0\<rparr> \<and> tp \<lparr>tp = 100, fp = 3, fn = 0\<rparr> \<le> 100 \<and>
   0 \<le> fn \<lparr>tp = 100, fp = 3, fn = 0\<rparr> \<and> fn \<lparr>tp = 100, fp = 3, fn = 0\<rparr> \<le> 100"
proof -
  have m: "\<lparr>tp = 100, fp = 3, fn = 0\<rparr> \<in>
     set (snd (counters_after record_call (Some \<lparr>tp = 150, fp = 3, fn = 7\<rparr>)
                 [EnterTp 250, ClickSubmit, EnterFn (- 4), ClickSubmit] []))"
    by (simp add: factory_defs)
  from submitted_counts_in_bounds
         [where ?v0.0 = "Some \<lparr>tp = 150, fp = 3, fn = 7\<rparr>"
            and es = "[EnterTp 250, ClickSubmit, EnterFn (- 4), ClickSubmit]",
          THEN conjunct1, THEN bspec, OF m] m
  show ?thesis by blast
qed


lemma MultiClassInputCellFactory_init_empty:
  "\<not> truthy dflt \<Longrightarrow> MultiClassInputCellFactory_init [] dflt = Inl IndexError"
  by (simp add: MultiClassInputCellFactory_init_def)


text \<open>
  C10, as stated, says that a given \<^verbatim>\<open>ValResult\<close> initialises the counters to
  its fields. The counters are bounded by 0 and 100, so a field outside is
  not taken over: 150 for \<open>tp\<close> gives a counter at 100.
\<close>

theorem validation_initial_values_counterexample:
  "bit_value (tp_widget (DetectorValidationInputCellFactory_new
       (record_call :: ValResult \<Rightarrow> ValResult list \<Rightarrow> ValResult list)
       (Some \<lparr>tp = 150, fp = - 3, fn = 7\<rparr>)))
     \<noteq> tp \<lparr>tp = 150, fp = - 3, fn = 7\<rparr>"
  by (simp add: factory_defs)

text \<open>
  C10, amended. Without a value \<^verbatim>\<open>new\<close> initialises the three counters to 0;
  with a \<^verbatim>\<open>ValResult\<close> it initialises them to its \<open>tp\<close>, \<open>fp\<close> and \<open>fn\<close>,
  each capped and floored into \<open>[0, 100]\<close>, hence to the fields themselves
  when they lie in \<open>[0, 100]\<close>.
\<close>

theorem validation_initial_values:
  "bit_value (tp_widget (DetectorValidationInputCellFactory_new cb None)) = 0 \<and>
   bit_value (fp_widget (DetectorValidationInputCellFactory_new cb None)) = 0 \<and>
   bit_value (fn_widget (DetectorValidationInputCellFactory_new cb None)) = 0 \<and>
   bit_value (tp_widget (DetectorValidationInputCellFactory_new cb (Some r))) =
     min (max (tp r) 0) 100 \<and>
   bit_value (fp_widget (DetectorValidationInputCellFactory_new cb (Some r))) =
     min (max (fp r) 0) 100 \<and>
   bit_value (fn_widget (DetectorValidationInputCellFactory_new cb (Some r))) =
     min (max (fn r) 0) 100 \<and>
   (0 \<le> tp r \<and> tp r \<le> 100 \<longrightarrow>
      bit_value (tp_widget (DetectorValidationInputCellFactory_new cb (Some r))) = tp r) \<and>
   (0 \<le> fp r \<and> fp r \<le> 100 \<longrightarrow>
      bit_value (fp_widget (DetectorValidationInputCellFactory_new cb (Some r))) = fp r) \<and>
   (0 \<le> fn r \<and> fn r \<le> 100 \<longrightarrow>
      bit_value (fn_widget (DetectorValidationInputCellFactory_new cb (Some r))) = fn r)"
  by (simp add: new_fields BoundedIntText_value)

theorem validation_initial_values_witness:
  "0 \<le> tp \<lparr>tp = 4, fp = 100, fn = 0\<rparr> \<and> tp \<lparr>tp = 4, fp = 100, fn = 0\<rparr> \<le> 100 \<and>
   0 \<le> fp \<lparr>tp = 4, fp = 100, fn = 0\<rparr> \<and> fp \<lparr>tp = 4, fp = 100, fn = 0\<rparr> \<le> 100 \<and>
   0 \<le> fn \<lparr>tp = 4, fp = 100, fn = 0\<rparr> \<and> fn \<lparr>tp = 4, fp = 100, fn = 0\<rparr> \<le> 100 \<and>
   bit_value (tp_widget (DetectorValidationInputCellFactory_new
       (record_call :: ValResult \<Rightarrow> ValResult list \<Rightarrow> ValResult list)
       (Some \<lparr>tp = 4, fp = 100, fn = 0\<rparr>))) = 4 \<and>
   bit_value (fp_widget (DetectorValidationInputCellFactory_new
       (record_call :: ValResult \<Rightarrow> ValResult list \<Rightarrow> ValResult list)
       (Some \<lparr>tp = 4, fp = 100, fn = 0\<rparr>))) = 100 \<and>
   bit_value (fn_widget (DetectorValidationInputCellFactory_new
       (record_call :: ValResult \<Rightarrow> ValResult list \<Rightarrow> ValResult list)
       (Some \<lparr>tp = 4, fp = 100, fn = 0\<rparr>))) = 0"
  using validation_initial_values
          [where cb = "record_call :: ValResult \<Rightarrow> ValResult list \<Rightarrow> ValResult list"
             and r = "\<lparr>tp = 4, fp = 100, fn = 0\<rparr>"]
  by simp

end
